theory Spec2Isabelle
  imports Complex_Main "HOL-Library.Sublist" "HOL-Library.Multiset"
begin

section \<open>Antibody: adaptive insertion of invisible characters (main.py)\<close>

text \<open>
  A Python \<^verbatim>\<open>str\<close> is a sequence of Unicode code points, so a text is a list of code
  points (natural numbers), not of bytes. The ambient generator of the \<^verbatim>\<open>random\<close>
  module is an explicit value that every drawing function takes and returns. Every
  exception of the source is a value \<open>Inl e\<close> of a sum type.
\<close>

type_synonym codepoint = nat
type_synonym ustring = "codepoint list"

datatype error = KeyError string | ZeroDivisionError | IndexError

subsection \<open>The random source\<close>

text \<open>
  The generator is a fixed infinite sequence of raw outcomes (\<open>outcomes\<close>) together
  with the number of draws made so far (\<open>used\<close>); each call of \<^verbatim>\<open>random.random()\<close> or
  \<^verbatim>\<open>random.choice\<close> reads the next raw outcome and advances \<open>used\<close> by one.
  \<^verbatim>\<open>random.random()\<close> returns a multiple of \<open>1 / 2 ^ 53\<close> in \<open>[0, 1)\<close>;
  \<^verbatim>\<open>random.choice(seq)\<close> returns \<open>seq[k]\<close> for some \<open>k < len(seq)\<close> and raises
  IndexError on an empty sequence. As \<open>outcomes\<close> ranges over all sequences, every
  outcome of either call is reached.
\<close>

record rng =
  outcomes :: "nat \<Rightarrow> nat"
  used :: nat

definition random_random :: "rng \<Rightarrow> real \<times> rng" where
  "random_random g =
     (real (outcomes g (used g) mod 2 ^ 53) / 2 ^ 53, g\<lparr>used := Suc (used g)\<rparr>)"

definition random_choice :: "'a list \<Rightarrow> rng \<Rightarrow> error + ('a \<times> rng)" where
  "random_choice seq g =
     (if seq = [] then Inl IndexError
      else Inr (seq ! (outcomes g (used g) mod length seq), g\<lparr>used := Suc (used g)\<rparr>))"

subsection \<open>Configuration tables\<close>

definition INVISIBLE_CHAR_POOLS :: "(string \<times> codepoint list) list" where
  "INVISIBLE_CHAR_POOLS =
     [(''Basic Pool'', [0x200B, 0x200C, 0x200D]),
      (''Expansion Pool'', [0x00A0, 0x0009, 0x200E]),
      (''Spare Pool'', [0x202F, 0x2060, 0xFEFF])]"

record interference_cfg =
  Interval :: int
  Implantation_Probability :: real
  Character_Pool :: "string list"

text \<open>
  The probabilities are the float literals \<^verbatim>\<open>0.2\<close>, \<^verbatim>\<open>0.5\<close> and \<^verbatim>\<open>0.8\<close>: the
  binary64 numbers nearest to them, written here as exact fractions.
\<close>

definition float_0_2 :: real where
  "float_0_2 = 3602879701896397 / 2 ^ 54"

definition float_0_5 :: real where
  "float_0_5 = 1 / 2"

definition float_0_8 :: real where
  "float_0_8 = 3602879701896397 / 2 ^ 52"

definition MILD :: interference_cfg where
  "MILD = \<lparr>Interval = 5, Implantation_Probability = float_0_2,
            Character_Pool = [''Basic Pool'']\<rparr>"

definition MODERATE :: interference_cfg where
  "MODERATE = \<lparr>Interval = 3, Implantation_Probability = float_0_5,
                Character_Pool = [''Basic Pool'', ''Expansion Pool'']\<rparr>"

definition SEVERE :: interference_cfg where
  "SEVERE = \<lparr>Interval = 2, Implantation_Probability = float_0_8,
              Character_Pool = [''Basic Pool'', ''Expansion Pool'', ''Spare Pool'']\<rparr>"

definition INTERFERENCE_LEVELS :: "(string \<times> interference_cfg) list" where
  "INTERFERENCE_LEVELS =
     [(''Mild Interference'', MILD),
      (''Moderate Interference'', MODERATE),
      (''Severe interference'', SEVERE)]"

text \<open>
  \<^verbatim>\<open>INVALID_POS_CHARS\<close> is a raw triple-quoted literal, so a backslash in it stands for
  itself: the literal ends in the six characters backslash, \<open>t\<close>, backslash, \<open>n\<close>,
  backslash, \<open>r\<close>. Between the space and these, the file holds the UTF-8 bytes
  \<^verbatim>\<open>c3 a3 e2 82 ac e2 82 ac\<close>, which are the three code points U+00E3, U+20AC, U+20AC.
  The list below is the literal, code point by code point.
\<close>

definition INVALID_POS_CHARS :: ustring where
  "INVALID_POS_CHARS =
     [0x21, 0x5C, 0x22, 0x23, 0x24, 0x25, 0x26, 0x27, 0x28, 0x29, 0x2A, 0x2B, 0x2C,
      0x2D, 0x2E, 0x2F, 0x3A, 0x3B, 0x3C, 0x3D, 0x3E, 0x3F, 0x40, 0x5B, 0x5C, 0x5D,
      0x5E, 0x5F, 0x60, 0x7B, 0x7C, 0x7D, 0x7E, 0x20, 0xE3, 0x20AC, 0x20AC,
      0x5C, 0x74, 0x5C, 0x6E, 0x5C, 0x72]"

subsection \<open>The core functions\<close>

text \<open>The loop of \<^verbatim>\<open>get_random_invisible_char\<close> that extends \<^verbatim>\<open>all_chars\<close> pool by pool.\<close>

fun extend_all_chars :: "ustring \<Rightarrow> string list \<Rightarrow> error + ustring" where
  "extend_all_chars all_chars [] = Inr all_chars"
| "extend_all_chars all_chars (pool_name # rest) =
     (case map_of INVISIBLE_CHAR_POOLS pool_name of
        None \<Rightarrow> Inl (KeyError pool_name)
      | Some cs \<Rightarrow> extend_all_chars (all_chars @ cs) rest)"

definition get_random_invisible_char :: "string list \<Rightarrow> rng \<Rightarrow> error + (codepoint \<times> rng)" where
  "get_random_invisible_char used_pools g =
     (case extend_all_chars [] used_pools of
        Inl e \<Rightarrow> Inl e
      | Inr all_chars \<Rightarrow> random_choice all_chars g)"

definition is_valid_insert_pos :: "codepoint \<Rightarrow> codepoint \<Rightarrow> bool" where
  "is_valid_insert_pos prev_char next_char =
     (if prev_char \<in> set INVALID_POS_CHARS \<or> next_char \<in> set INVALID_POS_CHARS
      then False else True)"

text \<open>
  \<^verbatim>\<open>str.strip()\<close> without argument removes leading and trailing characters for which
  \<^verbatim>\<open>str.isspace\<close> holds; these are the code points below (Python's Unicode whitespace).
\<close>

definition py_isspace :: "codepoint \<Rightarrow> bool" where
  "py_isspace c =
     (c \<in> set [0x09, 0x0A, 0x0B, 0x0C, 0x0D, 0x1C, 0x1D, 0x1E, 0x1F, 0x20, 0x85, 0xA0,
               0x1680, 0x2028, 0x2029, 0x202F, 0x205F, 0x3000]
      \<or> (0x2000 \<le> c \<and> c \<le> 0x200A))"

definition str_strip :: "ustring \<Rightarrow> ustring" where
  "str_strip s = rev (dropWhile py_isspace (rev (dropWhile py_isspace s)))"

text \<open>\<^verbatim>\<open>list.insert(pos, c)\<close> for a position that is not negative.\<close>

definition list_insert :: "nat \<Rightarrow> 'a \<Rightarrow> 'a list \<Rightarrow> 'a list" where
  "list_insert pos c xs = take pos xs @ c # drop pos xs"

text \<open>
  One iteration of the marking loop at index \<open>i\<close>; the state is
  \<open>(char_count, insert_positions, generator)\<close>. The conjunction of the source
  evaluates \<^verbatim>\<open>random.random()\<close> only when the remainder is zero, and the remainder
  raises ZeroDivisionError when the interval is zero.
\<close>

type_synonym mark_state = "int \<times> nat list \<times> rng"

fun mark_step :: "ustring \<Rightarrow> int \<Rightarrow> real \<Rightarrow> nat \<Rightarrow> mark_state \<Rightarrow> error + mark_state" where
  "mark_step result interval prob i (char_count, insert_positions, g) =
     (let prev_char = result ! (i - 1); next_char = result ! i in
      if is_valid_insert_pos prev_char next_char then
        (let char_count = char_count + 1 in
         if interval = 0 then Inl ZeroDivisionError
         else if char_count mod interval = 0 then
           (let (r, g') = random_random g in
            if r < prob then Inr (char_count, insert_positions @ [i], g')
            else Inr (char_count, insert_positions, g'))
         else Inr (char_count, insert_positions, g))
      else Inr (char_count, insert_positions, g))"

fun mark_loop :: "ustring \<Rightarrow> int \<Rightarrow> real \<Rightarrow> nat list \<Rightarrow> mark_state \<Rightarrow> error + mark_state" where
  "mark_loop result interval prob [] st = Inr st"
| "mark_loop result interval prob (i # rest) st =
     (case mark_step result interval prob i st of
        Inl e \<Rightarrow> Inl e
      | Inr st' \<Rightarrow> mark_loop result interval prob rest st')"

text \<open>The insertion loop over \<^verbatim>\<open>reversed(insert_positions)\<close>.\<close>

fun insert_loop :: "string list \<Rightarrow> nat list \<Rightarrow> ustring \<Rightarrow> rng \<Rightarrow> error + (ustring \<times> rng)" where
  "insert_loop used_pools [] result g = Inr (result, g)"
| "insert_loop used_pools (pos # rest) result g =
     (case get_random_invisible_char used_pools g of
        Inl e \<Rightarrow> Inl e
      | Inr (c, g') \<Rightarrow> insert_loop used_pools rest (list_insert pos c result) g')"

text \<open>The list comprehension that draws the two characters of \<^verbatim>\<open>end_mark\<close>.\<close>

definition draw_end_mark :: "string list \<Rightarrow> rng \<Rightarrow> error + (ustring \<times> rng)" where
  "draw_end_mark used_pools g =
     (case get_random_invisible_char used_pools g of
        Inl e \<Rightarrow> Inl e
      | Inr (c1, g1) \<Rightarrow>
          (case get_random_invisible_char used_pools g1 of
             Inl e \<Rightarrow> Inl e
           | Inr (c2, g2) \<Rightarrow> Inr ([c1, c2], g2)))"

definition insert_adaptive_invisible_traps ::
    "ustring \<Rightarrow> interference_cfg \<Rightarrow> rng \<Rightarrow> error + (ustring \<times> rng)" where
  "insert_adaptive_invisible_traps text cfg g =
     (if str_strip text = [] then Inr ([], g)
      else
        (let interval = Interval cfg;
             prob = Implantation_Probability cfg;
             used_pools = Character_Pool cfg
         in case mark_loop text interval prob [1..<length text] (0, [], g) of
              Inl e \<Rightarrow> Inl e
            | Inr (char_count, insert_positions, g1) \<Rightarrow>
                (case insert_loop used_pools (rev insert_positions) text g1 of
                   Inl e \<Rightarrow> Inl e
                 | Inr (result, g2) \<Rightarrow>
                     (case draw_end_mark used_pools g2 of
                        Inl e \<Rightarrow> Inl e
                      | Inr (end_mark, g3) \<Rightarrow> Inr (result @ [0x20] @ end_mark, g3)))))"

subsection \<open>The entry point of the window: \<^verbatim>\<open>process_input\<close>\<close>

text \<open>
  \<^verbatim>\<open>process_input\<close> strips the text of the input field, warns and returns when nothing
  is left, and otherwise indexes \<^verbatim>\<open>INTERFERENCE_LEVELS\<close> with the selected name, which
  raises KeyError for a name that is not a key.
\<close>

definition lookup_level :: "string \<Rightarrow> error + interference_cfg" where
  "lookup_level selected_level =
     (case map_of INTERFERENCE_LEVELS selected_level of
        None \<Rightarrow> Inl (KeyError selected_level)
      | Some cfg \<Rightarrow> Inr cfg)"

datatype outcome = Warned | Displayed ustring

definition process_input :: "ustring \<Rightarrow> string \<Rightarrow> rng \<Rightarrow> error + (outcome \<times> rng)" where
  "process_input input_text selected_level g =
     (let raw_input = str_strip input_text in
      if raw_input = [] then Inr (Warned, g)
      else
        (case lookup_level selected_level of
           Inl e \<Rightarrow> Inl e
         | Inr interference_cfg \<Rightarrow>
             (case insert_adaptive_invisible_traps raw_input interference_cfg g of
                Inl e \<Rightarrow> Inl e
              | Inr (processed_result, g') \<Rightarrow> Inr (Displayed processed_result, g'))))"

subsection \<open>Notions used in the statements\<close>

text \<open>
  The characters of all registered pools; whether the boundary before index \<open>i\<close> may
  take an insertion; the boundaries of a text that may; and the number of times the
  remainder test succeeds while the counter goes from \<open>c + 1\<close> to \<open>c + n\<close>.
\<close>

definition all_pool_chars :: ustring where
  "all_pool_chars = concat (map snd INVISIBLE_CHAR_POOLS)"

definition eligible :: "ustring \<Rightarrow> nat \<Rightarrow> bool" where
  "eligible text i = is_valid_insert_pos (text ! (i - 1)) (text ! i)"

definition eligible_boundaries :: "ustring \<Rightarrow> nat list" where
  "eligible_boundaries text = filter (eligible text) [1..<length text]"

fun draw_slots :: "int \<Rightarrow> int \<Rightarrow> nat \<Rightarrow> nat" where
  "draw_slots interval c 0 = 0"
| "draw_slots interval c (Suc n) =
     (if (c + 1) mod interval = 0 then 1 else 0) + draw_slots interval (c + 1) n"

definition level_chars :: "interference_cfg \<Rightarrow> ustring" where
  "level_chars cfg =
     (case extend_all_chars [] (Character_Pool cfg) of Inl e \<Rightarrow> [] | Inr cs \<Rightarrow> cs)"

definition strip_invisible :: "ustring \<Rightarrow> ustring" where
  "strip_invisible s = filter (\<lambda>c. c \<notin> set all_pool_chars) s"

definition has_trailing_marker :: "ustring \<Rightarrow> ustring \<Rightarrow> bool" where
  "has_trailing_marker cs out =
     (3 \<le> length out \<and> out ! (length out - 3) = 0x20
      \<and> out ! (length out - 2) \<in> set cs \<and> out ! (length out - 1) \<in> set cs)"

text \<open>
  The state of the marking loop when it reaches index \<open>i\<close> (the loop run over the
  indices before \<open>i\<close>); whether the iteration at \<open>i\<close> makes a draw (the generator's
  count of draws changes); and the value of the counter after the iteration at \<open>i\<close>,
  which at a valid boundary is the value the remainder is taken of.
\<close>

definition state_at :: "ustring \<Rightarrow> int \<Rightarrow> real \<Rightarrow> rng \<Rightarrow> nat \<Rightarrow> error + mark_state" where
  "state_at s interval prob g i = mark_loop s interval prob [1..<i] (0, [], g)"

definition draw_consumed_at :: "ustring \<Rightarrow> int \<Rightarrow> real \<Rightarrow> rng \<Rightarrow> nat \<Rightarrow> bool" where
  "draw_consumed_at s interval prob g i =
     (case state_at s interval prob g i of
        Inl e \<Rightarrow> False
      | Inr (c, ps, g1) \<Rightarrow>
          (case mark_step s interval prob i (c, ps, g1) of
             Inl e \<Rightarrow> False
           | Inr (c', ps', g2) \<Rightarrow> used g2 \<noteq> used g1))"

definition counter_at :: "ustring \<Rightarrow> int \<Rightarrow> real \<Rightarrow> rng \<Rightarrow> nat \<Rightarrow> int" where
  "counter_at s interval prob g i =
     (case state_at s interval prob g (Suc i) of
        Inl e \<Rightarrow> 0
      | Inr (c, ps, g') \<Rightarrow> c)"

text \<open>
  The number of draws the marking loop makes on a text; the expected number of
  insertions, taken as that number times the probability of the level (each draw
  marks its boundary when it is below the probability); and whether the raw outcome
  number \<open>k\<close> of a generator, read by \<^verbatim>\<open>random.random()\<close>, is below a probability.
\<close>

definition draws_in_marking :: "ustring \<Rightarrow> interference_cfg \<Rightarrow> rng \<Rightarrow> nat" where
  "draws_in_marking s cfg g =
     (case mark_loop s (Interval cfg) (Implantation_Probability cfg) [1..<length s] (0, [], g) of
        Inl e \<Rightarrow> 0
      | Inr (c, ps, g') \<Rightarrow> used g' - used g)"

definition expected_insertions :: "ustring \<Rightarrow> interference_cfg \<Rightarrow> rng \<Rightarrow> real" where
  "expected_insertions s cfg g =
     real (draws_in_marking s cfg g) * Implantation_Probability cfg"

definition draw_below :: "rng \<Rightarrow> real \<Rightarrow> nat \<Rightarrow> bool" where
  "draw_below g prob k \<longleftrightarrow> real (outcomes g k mod 2 ^ 53) / 2 ^ 53 < prob"

section \<open>Properties\<close>

subsection \<open>Auxiliary facts\<close>

lemma list_insert_length: "length (list_insert p c xs) = Suc (length xs)"
  by (simp add: list_insert_def)

lemma list_insert_subseq: "subseq xs (list_insert p c xs)"
proof -
  have "subseq (take p xs @ drop p xs) (take p xs @ c # drop p xs)"
    by (rule list_emb_append_mono) (simp_all add: list_emb_Cons)
  then show ?thesis by (simp add: list_insert_def)
qed

lemma list_insert_filter: "\<not> P c \<Longrightarrow> filter P (list_insert p c xs) = filter P xs"
proof -
  assume "\<not> P c"
  then have "filter P (list_insert p c xs) = filter P (take p xs) @ filter P (drop p xs)"
    by (simp add: list_insert_def)
  also have "\<dots> = filter P (take p xs @ drop p xs)"
    by (simp only: filter_append)
  finally show ?thesis by (simp only: append_take_drop_id)
qed

lemma list_insert_mset: "mset (list_insert p c xs) = add_mset c (mset xs)"
proof -
  have "mset (list_insert p c xs) = add_mset c (mset (take p xs) + mset (drop p xs))"
    by (simp add: list_insert_def)
  also have "mset (take p xs) + mset (drop p xs) = mset (take p xs @ drop p xs)"
    by (simp only: mset_append)
  finally show ?thesis by (simp only: append_take_drop_id)
qed

lemma list_insert_hd: "0 < p \<Longrightarrow> xs \<noteq> [] \<Longrightarrow> hd (list_insert p c xs) = hd xs"
  by (cases xs; cases p) (simp_all add: list_insert_def)

lemma list_insert_nonempty: "list_insert p c xs \<noteq> []"
  by (simp add: list_insert_def)

lemma extend_all_chars_set:
  "extend_all_chars acc ps = Inr cs \<Longrightarrow> set cs \<subseteq> set acc \<union> set all_pool_chars"
proof (induction ps arbitrary: acc)
  case Nil
  then show ?case by auto
next
  case (Cons p ps)
  then obtain xs where look: "map_of INVISIBLE_CHAR_POOLS p = Some xs"
    and rest: "extend_all_chars (acc @ xs) ps = Inr cs"
    by (auto split: option.splits)
  from look have "(p, xs) \<in> set INVISIBLE_CHAR_POOLS" by (rule map_of_SomeD)
  then have "xs \<in> snd ` set INVISIBLE_CHAR_POOLS" by force
  then have "set xs \<subseteq> set all_pool_chars"
    by (auto simp: all_pool_chars_def)
  with Cons.IH [OF rest] show ?case by auto
qed

lemma get_random_invisible_char_Inr:
  assumes "extend_all_chars [] pools = Inr cs" and "cs \<noteq> []"
  shows "\<exists>c. c \<in> set cs \<and>
           get_random_invisible_char pools g = Inr (c, g\<lparr>used := Suc (used g)\<rparr>)"
  using assms by (simp add: get_random_invisible_char_def random_choice_def)

lemma mark_step_Inr:
  assumes "interval \<noteq> 0"
  shows "\<exists>new g'. mark_step text interval prob i (c, ps, g) =
            Inr (c + (if eligible text i then 1 else 0), ps @ new, g')
          \<and> (new = [] \<or> new = [i] \<and> eligible text i)
          \<and> outcomes g' = outcomes g
          \<and> used g' = used g + (if eligible text i \<and> (c + 1) mod interval = 0 then 1 else 0)"
  using assms by (simp add: eligible_def random_random_def Let_def)

lemma mark_loop_Inr:
  assumes "interval \<noteq> 0"
  shows "\<exists>new g'. mark_loop text interval prob js (c, ps, g) =
            Inr (c + int (length (filter (eligible text) js)), ps @ new, g')
          \<and> subseq new (filter (eligible text) js)
          \<and> outcomes g' = outcomes g
          \<and> used g' = used g + draw_slots interval c (length (filter (eligible text) js))"
proof (induction js arbitrary: c ps g)
  case Nil
  then show ?case by simp
next
  case (Cons j js)
  from mark_step_Inr [OF assms, of "text" prob j c ps g]
  obtain new1 g1 where
    step: "mark_step text interval prob j (c, ps, g) =
             Inr (c + (if eligible text j then 1 else 0), ps @ new1, g1)"
    and new1: "new1 = [] \<or> new1 = [j] \<and> eligible text j"
    and o1: "outcomes g1 = outcomes g"
    and u1: "used g1 = used g + (if eligible text j \<and> (c + 1) mod interval = 0 then 1 else 0)"
    by blast
  from Cons.IH [of "c + (if eligible text j then 1 else 0)" "ps @ new1" g1]
  obtain new2 g2 where
    loop: "mark_loop text interval prob js (c + (if eligible text j then 1 else 0), ps @ new1, g1) =
             Inr (c + (if eligible text j then 1 else 0) + int (length (filter (eligible text) js)),
                  (ps @ new1) @ new2, g2)"
    and new2: "subseq new2 (filter (eligible text) js)"
    and o2: "outcomes g2 = outcomes g1"
    and u2: "used g2 = used g1 +
               draw_slots interval (c + (if eligible text j then 1 else 0))
                 (length (filter (eligible text) js))"
    by blast
  have sub: "subseq (new1 @ new2) (filter (eligible text) (j # js))"
    using new1 new2 by auto
  have run: "mark_loop text interval prob (j # js) (c, ps, g) =
      Inr (c + int (length (filter (eligible text) (j # js))), ps @ (new1 @ new2), g2)"
    using step loop by (simp del: mark_step.simps)
  have draws: "used g2 = used g + draw_slots interval c (length (filter (eligible text) (j # js)))"
    using u1 u2 by simp
  from run sub o1 o2 draws show ?case by metis
qed

lemma list_insert_last: "p < length xs \<Longrightarrow> last (list_insert p c xs) = last xs"
  by (simp add: list_insert_def)

lemma get_random_invisible_char_InrD:
  assumes "get_random_invisible_char pools g = Inr (c, g')"
    and "extend_all_chars [] pools = Inr cs"
  shows "c \<in> set cs \<and> g' = g\<lparr>used := Suc (used g)\<rparr>"
  using assms
  by (auto simp: get_random_invisible_char_def random_choice_def split: if_splits)

lemma insert_loop_total:
  assumes "extend_all_chars [] pools = Inr cs" and "cs \<noteq> []"
  shows "\<exists>body g'. insert_loop pools ps result g = Inr (body, g')"
proof (induction ps arbitrary: result g)
  case Nil
  then show ?case by simp
next
  case (Cons p ps)
  from get_random_invisible_char_Inr [OF assms, of g]
  obtain c where "get_random_invisible_char pools g = Inr (c, g\<lparr>used := Suc (used g)\<rparr>)"
    by blast
  with Cons.IH show ?case by simp
qed

lemma insert_loop_length:
  "insert_loop pools ps result g = Inr (body, g') \<Longrightarrow> length body = length result + length ps"
  by (induction ps arbitrary: result g)
     (auto simp: list_insert_length split: sum.splits)

lemma insert_loop_subseq:
  "insert_loop pools ps result g = Inr (body, g') \<Longrightarrow> subseq result body"
proof (induction ps arbitrary: result g)
  case Nil
  then show ?case by simp
next
  case (Cons p ps)
  then obtain c g1 where "insert_loop pools ps (list_insert p c result) g1 = Inr (body, g')"
    by (auto split: sum.splits)
  then have "subseq (list_insert p c result) body" by (rule Cons.IH)
  with list_insert_subseq [of result p c] show ?case
    by (rule subseq_order.trans)
qed

lemma insert_loop_used:
  assumes "extend_all_chars [] pools = Inr cs"
  shows "insert_loop pools ps result g = Inr (body, g') \<Longrightarrow>
    outcomes g' = outcomes g \<and> used g' = used g + length ps"
proof (induction ps arbitrary: result g)
  case Nil
  then show ?case by simp
next
  case (Cons p ps)
  then obtain c g1 where c: "get_random_invisible_char pools g = Inr (c, g1)"
    and rest: "insert_loop pools ps (list_insert p c result) g1 = Inr (body, g')"
    by (auto split: sum.splits)
  from get_random_invisible_char_InrD [OF c assms] have "g1 = g\<lparr>used := Suc (used g)\<rparr>"
    by simp
  with Cons.IH [OF rest] show ?case by simp
qed

lemma insert_loop_filter:
  assumes "extend_all_chars [] pools = Inr cs" and "\<And>c. c \<in> set cs \<Longrightarrow> \<not> P c"
  shows "insert_loop pools ps result g = Inr (body, g') \<Longrightarrow> filter P body = filter P result"
proof (induction ps arbitrary: result g)
  case Nil
  then show ?case by simp
next
  case (Cons p ps)
  then obtain c g1 where c: "get_random_invisible_char pools g = Inr (c, g1)"
    and rest: "insert_loop pools ps (list_insert p c result) g1 = Inr (body, g')"
    by (auto split: sum.splits)
  from get_random_invisible_char_InrD [OF c assms(1)] assms(2) have "\<not> P c"
    by simp
  with Cons.IH [OF rest] show ?case by (simp add: list_insert_filter)
qed

lemma insert_loop_mset:
  assumes "extend_all_chars [] pools = Inr cs"
  shows "insert_loop pools ps result g = Inr (body, g') \<Longrightarrow>
    \<exists>ins. mset body = mset result + mset ins \<and> set ins \<subseteq> set cs \<and> length ins = length ps"
proof (induction ps arbitrary: result g)
  case Nil
  then show ?case by simp
next
  case (Cons p ps)
  then obtain c g1 where c: "get_random_invisible_char pools g = Inr (c, g1)"
    and rest: "insert_loop pools ps (list_insert p c result) g1 = Inr (body, g')"
    by (auto split: sum.splits)
  from get_random_invisible_char_InrD [OF c assms] have c_in: "c \<in> set cs"
    by simp
  from Cons.IH [OF rest] obtain ins where
    "mset body = mset (list_insert p c result) + mset ins" "set ins \<subseteq> set cs"
    "length ins = length ps"
    by blast
  with c_in have "mset body = mset result + mset (c # ins) \<and> set (c # ins) \<subseteq> set cs
      \<and> length (c # ins) = length (p # ps)"
    by (simp add: list_insert_mset)
  then show ?case by blast
qed

lemma insert_loop_hd_last:
  assumes "\<And>p. p \<in> set ps \<Longrightarrow> 0 < p \<and> p < length result"
  shows "insert_loop pools ps result g = Inr (body, g') \<Longrightarrow>
    hd body = hd result \<and> last body = last result"
  using assms
proof (induction ps arbitrary: result g)
  case Nil
  then show ?case by simp
next
  case (Cons p ps)
  from Cons.prems(1) obtain c g1 where
    rest: "insert_loop pools ps (list_insert p c result) g1 = Inr (body, g')"
    by (auto split: sum.splits)
  have p: "0 < p" "p < length result" using Cons.prems(2) by simp_all
  then have ne: "result \<noteq> []" by auto
  have "hd body = hd (list_insert p c result) \<and> last body = last (list_insert p c result)"
  proof (rule Cons.IH [OF rest])
    fix q assume "q \<in> set ps"
    with Cons.prems(2) show "0 < q \<and> q < length (list_insert p c result)"
      by (simp add: list_insert_length less_Suc_eq)
  qed
  with p ne show ?case by (simp add: list_insert_hd list_insert_last)
qed

lemma lookup_level_cases:
  "lookup_level name = Inr cfg \<Longrightarrow> cfg = MILD \<or> cfg = MODERATE \<or> cfg = SEVERE"
  by (auto simp: lookup_level_def INTERFERENCE_LEVELS_def split: option.splits if_splits)

lemma level_chars_MILD: "extend_all_chars [] (Character_Pool MILD) = Inr [0x200B, 0x200C, 0x200D]"
  by (simp add: MILD_def INVISIBLE_CHAR_POOLS_def)

lemma level_chars_MODERATE:
  "extend_all_chars [] (Character_Pool MODERATE) =
     Inr [0x200B, 0x200C, 0x200D, 0x00A0, 0x0009, 0x200E]"
  by (simp add: MODERATE_def INVISIBLE_CHAR_POOLS_def)

lemma level_chars_SEVERE:
  "extend_all_chars [] (Character_Pool SEVERE) =
     Inr [0x200B, 0x200C, 0x200D, 0x00A0, 0x0009, 0x200E, 0x202F, 0x2060, 0xFEFF]"
  by (simp add: SEVERE_def INVISIBLE_CHAR_POOLS_def)

lemma registered_level_ok:
  assumes "lookup_level name = Inr cfg"
  shows "0 < Interval cfg \<and>
    (\<exists>cs. extend_all_chars [] (Character_Pool cfg) = Inr cs \<and> cs \<noteq> []
       \<and> level_chars cfg = cs \<and> set cs \<subseteq> set all_pool_chars)"
proof -
  have pos: "0 < Interval cfg"
    using lookup_level_cases [OF assms] by (auto simp: MILD_def MODERATE_def SEVERE_def)
  obtain cs where cs: "extend_all_chars [] (Character_Pool cfg) = Inr cs" and ne: "cs \<noteq> []"
    using lookup_level_cases [OF assms] level_chars_MILD level_chars_MODERATE level_chars_SEVERE
    by fastforce
  from extend_all_chars_set [OF cs] have "set cs \<subseteq> set all_pool_chars" by simp
  with pos cs ne show ?thesis by (simp add: level_chars_def)
qed

lemma subseq_set: "subseq xs ys \<Longrightarrow> set xs \<subseteq> set ys"
  by (auto elim: list_emb_set)

lemma str_strip_nonempty: "str_strip s \<noteq> [] \<Longrightarrow> s \<noteq> []"
  by (auto simp: str_strip_def)

lemma eligible_boundaries_range:
  "i \<in> set (eligible_boundaries s) \<Longrightarrow> 0 < i \<and> i < length s"
  by (auto simp: eligible_boundaries_def)

lemma draw_end_mark_Inr:
  assumes "extend_all_chars [] pools = Inr cs" and "cs \<noteq> []"
  shows "\<exists>m1 m2. m1 \<in> set cs \<and> m2 \<in> set cs \<and>
    draw_end_mark pools g = Inr ([m1, m2], g\<lparr>used := used g + 2\<rparr>)"
proof -
  from get_random_invisible_char_Inr [OF assms, of g] obtain m1 where
    m1: "m1 \<in> set cs" "get_random_invisible_char pools g = Inr (m1, g\<lparr>used := Suc (used g)\<rparr>)"
    by blast
  from get_random_invisible_char_Inr [OF assms, of "g\<lparr>used := Suc (used g)\<rparr>"] obtain m2 where
    m2: "m2 \<in> set cs"
      "get_random_invisible_char pools (g\<lparr>used := Suc (used g)\<rparr>) =
         Inr (m2, g\<lparr>used := Suc (Suc (used g))\<rparr>)"
    by auto
  from m1 m2 show ?thesis by (auto simp: draw_end_mark_def)
qed

text \<open>
  The whole run on a text that is not blank: what is returned, what the marking loop
  leaves, and how the body relates to the text. The predicate \<open>P\<close> is any filter that
  rejects the characters of the level.
\<close>

lemma traps_run_filter:
  assumes iv: "Interval cfg \<noteq> 0"
    and cs: "extend_all_chars [] (Character_Pool cfg) = Inr cs" and ne: "cs \<noteq> []"
    and nb: "str_strip s \<noteq> []"
  shows "\<exists>ps body ins m1 m2 g'.
    insert_adaptive_invisible_traps s cfg g = Inr (body @ [0x20, m1, m2], g')
    \<and> mark_loop s (Interval cfg) (Implantation_Probability cfg) [1..<length s] (0, [], g) =
        Inr (int (length (eligible_boundaries s)), ps,
             g\<lparr>used := used g + draw_slots (Interval cfg) 0 (length (eligible_boundaries s))\<rparr>)
    \<and> subseq ps (eligible_boundaries s)
    \<and> length body = length s + length ps
    \<and> subseq s body \<and> hd body = hd s \<and> last body = last s
    \<and> mset body = mset s + mset ins \<and> set ins \<subseteq> set cs \<and> length ins = length ps
    \<and> ((\<forall>c\<in>set cs. \<not> P c) \<longrightarrow> filter P body = filter P s)
    \<and> m1 \<in> set cs \<and> m2 \<in> set cs
    \<and> outcomes g' = outcomes g
    \<and> used g' = used g + draw_slots (Interval cfg) 0 (length (eligible_boundaries s))
         + length ps + 2"
proof -
  let ?n = "length (eligible_boundaries s)"
  from mark_loop_Inr [OF iv, of s "Implantation_Probability cfg" "[1..<length s]" 0 "[]" g]
  obtain ps g1 where
    loop: "mark_loop s (Interval cfg) (Implantation_Probability cfg) [1..<length s] (0, [], g) =
             Inr (int ?n, ps, g1)"
    and ps: "subseq ps (eligible_boundaries s)"
    and o1: "outcomes g1 = outcomes g"
    and u1: "used g1 = used g + draw_slots (Interval cfg) 0 ?n"
    by (auto simp: eligible_boundaries_def)
  have g1: "g1 = g\<lparr>used := used g + draw_slots (Interval cfg) 0 ?n\<rparr>"
    using o1 u1 by simp
  from insert_loop_total [OF cs ne, of "rev ps" s g1] obtain body g2 where
    ins: "insert_loop (Character_Pool cfg) (rev ps) s g1 = Inr (body, g2)"
    by blast
  from draw_end_mark_Inr [OF cs ne, of g2] obtain m1 m2 where
    m: "m1 \<in> set cs" "m2 \<in> set cs"
    and em: "draw_end_mark (Character_Pool cfg) g2 = Inr ([m1, m2], g2\<lparr>used := used g2 + 2\<rparr>)"
    by blast
  let ?g' = "g2\<lparr>used := used g2 + 2\<rparr>"
  have run: "insert_adaptive_invisible_traps s cfg g = Inr (body @ [0x20, m1, m2], ?g')"
    using nb loop ins em by (simp add: insert_adaptive_invisible_traps_def)
  have len: "length body = length s + length ps"
    using insert_loop_length [OF ins] by simp
  have sub: "subseq s body"
    using ins by (rule insert_loop_subseq)
  have range: "\<And>p. p \<in> set (rev ps) \<Longrightarrow> 0 < p \<and> p < length s"
    using subseq_set [OF ps] eligible_boundaries_range [of _ s] by auto
  have hl: "hd body = hd s \<and> last body = last s"
    using range ins by (rule insert_loop_hd_last)
  from insert_loop_mset [OF cs ins] obtain xs where
    xs: "mset body = mset s + mset xs" "set xs \<subseteq> set cs" "length xs = length ps"
    by auto
  have filt: "(\<forall>c\<in>set cs. \<not> P c) \<longrightarrow> filter P body = filter P s"
    using insert_loop_filter [OF cs _ ins, of P] by blast
  have u2: "outcomes g2 = outcomes g1 \<and> used g2 = used g1 + length ps"
    using insert_loop_used [OF cs ins] by simp
  have fin: "outcomes ?g' = outcomes g
      \<and> used ?g' = used g + draw_slots (Interval cfg) 0 ?n + length ps + 2"
    using u2 o1 u1 by simp
  from run loop g1 ps len sub hl xs filt m fin show ?thesis
    by blast
qed

lemma traps_run:
  assumes iv: "Interval cfg \<noteq> 0"
    and cs: "extend_all_chars [] (Character_Pool cfg) = Inr cs" and ne: "cs \<noteq> []"
    and nb: "str_strip s \<noteq> []"
  shows "\<exists>ps body ins m1 m2 g'.
    insert_adaptive_invisible_traps s cfg g = Inr (body @ [0x20, m1, m2], g')
    \<and> mark_loop s (Interval cfg) (Implantation_Probability cfg) [1..<length s] (0, [], g) =
        Inr (int (length (eligible_boundaries s)), ps,
             g\<lparr>used := used g + draw_slots (Interval cfg) 0 (length (eligible_boundaries s))\<rparr>)
    \<and> subseq ps (eligible_boundaries s)
    \<and> length body = length s + length ps
    \<and> subseq s body \<and> hd body = hd s \<and> last body = last s
    \<and> mset body = mset s + mset ins \<and> set ins \<subseteq> set cs \<and> length ins = length ps
    \<and> m1 \<in> set cs \<and> m2 \<in> set cs
    \<and> outcomes g' = outcomes g
    \<and> used g' = used g + draw_slots (Interval cfg) 0 (length (eligible_boundaries s))
         + length ps + 2"
  using traps_run_filter [OF assms, of g "\<lambda>c. True"] by blast

lemma traps_eval:
  assumes "str_strip s \<noteq> []"
    and "mark_loop s (Interval cfg) (Implantation_Probability cfg) [1..<length s] (0, [], g) =
           Inr (c, ps, g1)"
    and "insert_loop (Character_Pool cfg) (rev ps) s g1 = Inr (body, g2)"
    and "draw_end_mark (Character_Pool cfg) g2 = Inr (em, g3)"
  shows "insert_adaptive_invisible_traps s cfg g = Inr (body @ [0x20] @ em, g3)"
  using assms by (simp add: insert_adaptive_invisible_traps_def)

text \<open>The inputs of the scenarios.\<close>

lemma nb_Hi: "str_strip [0x48, 0x69] = [0x48, 0x69]"
  by (simp add: str_strip_def py_isspace_def)

lemma nb_acb: "str_strip [0x61, 0x2C, 0x62] = [0x61, 0x2C, 0x62]"
  by (simp add: str_strip_def py_isspace_def)

lemma valid_Hi: "is_valid_insert_pos 0x48 0x69"
  by (simp add: is_valid_insert_pos_def INVALID_POS_CHARS_def)

lemma eligible_Hi: "eligible_boundaries [0x48, 0x69] = [1]"
  by (simp add: eligible_boundaries_def eligible_def valid_Hi)

lemma eligible_acb: "eligible_boundaries [0x61, 0x2C, 0x62] = []"
  by (simp add: eligible_boundaries_def eligible_def upt_rec is_valid_insert_pos_def INVALID_POS_CHARS_def)

lemma space_not_pool: "0x20 \<notin> set all_pool_chars"
  by (simp add: all_pool_chars_def INVISIBLE_CHAR_POOLS_def)

lemma has_trailing_marker_append:
  "has_trailing_marker cs (body @ [0x20, m1, m2]) \<longleftrightarrow> m1 \<in> set cs \<and> m2 \<in> set cs"
  by (simp add: has_trailing_marker_def nth_append)

lemma mark_loop_Hi:
  assumes "lookup_level name = Inr cfg"
  shows "mark_loop [0x48, 0x69] (Interval cfg) (Implantation_Probability cfg)
           [1..<length [0x48, 0x69 :: nat]] (0, [], g) = Inr (1, [], g)"
  using lookup_level_cases [OF assms]
  by (auto simp: valid_Hi MILD_def MODERATE_def SEVERE_def)

lemma traps_Hi:
  assumes "lookup_level name = Inr cfg"
  shows "\<exists>m1 m2. m1 \<in> set (level_chars cfg) \<and> m2 \<in> set (level_chars cfg)
    \<and> insert_adaptive_invisible_traps [0x48, 0x69] cfg g =
        Inr ([0x48, 0x69, 0x20, m1, m2], g\<lparr>used := used g + 2\<rparr>)"
proof -
  from registered_level_ok [OF assms] obtain cs where
    cs: "extend_all_chars [] (Character_Pool cfg) = Inr cs"
    and ne: "cs \<noteq> []" and lc: "level_chars cfg = cs"
    by auto
  from draw_end_mark_Inr [OF cs ne, of g] obtain m1 m2 where
    m: "m1 \<in> set cs" "m2 \<in> set cs"
    and em: "draw_end_mark (Character_Pool cfg) g = Inr ([m1, m2], g\<lparr>used := used g + 2\<rparr>)"
    by blast
  have nb: "str_strip [0x48, 0x69] \<noteq> []" by (simp add: nb_Hi)
  have il: "insert_loop (Character_Pool cfg) (rev []) [0x48, 0x69] g = Inr ([0x48, 0x69], g)"
    by simp
  from traps_eval [OF nb mark_loop_Hi [OF assms, of g] il em]
  have "insert_adaptive_invisible_traps [0x48, 0x69] cfg g =
      Inr ([0x48, 0x69, 0x20, m1, m2], g\<lparr>used := used g + 2\<rparr>)"
    by simp
  with m lc show ?thesis by blast
qed

text \<open>
  The marking loop, boundary by boundary.
\<close>

lemma state_at_Inr:
  assumes "interval \<noteq> 0"
  shows "\<exists>ps g1. state_at s interval prob g i =
    Inr (int (length (filter (eligible s) [1..<i])), ps, g1)"
  using mark_loop_Inr [OF assms, of s prob "[1..<i]" 0 "[]" g]
  by (auto simp: state_at_def)

lemma draw_consumed_at_iff:
  assumes "interval \<noteq> 0"
  shows "draw_consumed_at s interval prob g i \<longleftrightarrow>
    eligible s i \<and> (int (length (filter (eligible s) [1..<i])) + 1) mod interval = 0"
proof -
  let ?c = "int (length (filter (eligible s) [1..<i]))"
  from state_at_Inr [OF assms, of s prob g i] obtain ps g1 where
    st: "state_at s interval prob g i = Inr (?c, ps, g1)"
    by blast
  from mark_step_Inr [OF assms, of s prob i ?c ps g1] obtain new g2 where
    step: "mark_step s interval prob i (?c, ps, g1) =
             Inr (?c + (if eligible s i then 1 else 0), ps @ new, g2)"
    and u: "used g2 = used g1 + (if eligible s i \<and> (?c + 1) mod interval = 0 then 1 else 0)"
    by blast
  have "draw_consumed_at s interval prob g i \<longleftrightarrow> used g2 \<noteq> used g1"
    unfolding draw_consumed_at_def st using step by (simp del: mark_step.simps)
  with u show ?thesis by simp
qed

lemma counter_at_eq:
  assumes "interval \<noteq> 0"
  shows "counter_at s interval prob g i = int (length (filter (eligible s) [1..<Suc i]))"
  using state_at_Inr [OF assms, of s prob g "Suc i"]
  by (auto simp: counter_at_def)

lemma mark_loop_append:
  "mark_loop s interval prob (xs @ ys) st =
     (case mark_loop s interval prob xs st of
        Inl e \<Rightarrow> Inl e
      | Inr st' \<Rightarrow> mark_loop s interval prob ys st')"
  by (induction xs arbitrary: st) (auto simp del: mark_step.simps split: sum.splits)

lemma mark_loop_reaches:
  assumes "0 < i" and "i < n"
  shows "mark_loop s interval prob [1..<n] (0, [], g) =
     (case state_at s interval prob g i of
        Inl e \<Rightarrow> Inl e
      | Inr st \<Rightarrow>
          (case mark_step s interval prob i st of
             Inl e \<Rightarrow> Inl e
           | Inr st' \<Rightarrow> mark_loop s interval prob [Suc i..<n] st'))"
proof -
  have "[1..<n] = [1..<i] @ [i..<n]"
    using assms upt_add_eq_append [of 1 i "n - i"] by simp
  also have "[i..<n] = i # [Suc i..<n]"
    using assms(2) by (rule upt_conv_Cons)
  finally have "[1..<n] = [1..<i] @ i # [Suc i..<n]" .
  then show ?thesis
    by (simp only: mark_loop_append state_at_def mark_loop.simps)
qed

text \<open>
  Counting the draws of the marking loop.
\<close>

lemma div_step:
  fixes c i :: int
  assumes "0 < i"
  shows "(c + 1) div i = c div i + (if (c + 1) mod i = 0 then 1 else 0)"
proof -
  have c: "c = i * (c div i) + c mod i" by simp
  have r: "0 \<le> c mod i" "c mod i < i" using assms by simp_all
  show ?thesis
  proof (cases "c mod i + 1 = i")
    case True
    with c have eq: "c + 1 = i * (c div i + 1) + 0"
      by (metis add.assoc add.right_neutral distrib_left mult.right_neutral)
    from int_div_pos_eq [OF eq _ assms] int_mod_pos_eq [OF eq _ assms]
    show ?thesis by simp
  next
    case False
    with r have lt: "c mod i + 1 < i" by simp
    from c have eq: "c + 1 = i * (c div i) + (c mod i + 1)" by simp
    have nn: "0 \<le> c mod i + 1" using r by simp
    from int_div_pos_eq [OF eq nn lt] int_mod_pos_eq [OF eq nn lt] r
    show ?thesis by simp
  qed
qed

lemma draw_slots_closed:
  assumes "0 < interval"
  shows "int (draw_slots interval c n) = (c + int n) div interval - c div interval"
proof (induction n arbitrary: c)
  case 0
  then show ?case by simp
next
  case (Suc n)
  have "(c + 1 + int n) div interval = (c + int (Suc n)) div interval"
    by (simp add: add.commute add.left_commute)
  with Suc [of "c + 1"] div_step [OF assms, of c] show ?case
    by simp
qed

lemma draw_slots_div:
  assumes "0 < interval"
  shows "draw_slots interval 0 n = n div nat interval"
proof -
  have "int (draw_slots interval 0 n) = int n div interval"
    using draw_slots_closed [OF assms, of 0 n] by simp
  also have "\<dots> = int (n div nat interval)"
    using assms by (simp add: zdiv_int)
  finally show ?thesis by simp
qed

lemma draw_slots_snoc:
  "draw_slots interval c (Suc n) =
     draw_slots interval c n + (if (c + int n + 1) mod interval = 0 then 1 else 0)"
proof (induction n arbitrary: c)
  case 0
  then show ?case by simp
next
  case (Suc n)
  have "c + 1 + int n + 1 = c + int (Suc n) + 1" by simp
  with Suc [of "c + 1"] show ?case by simp
qed

lemma draws_in_marking_eq:
  assumes "Interval cfg \<noteq> 0"
  shows "draws_in_marking s cfg g =
    draw_slots (Interval cfg) 0 (length (eligible_boundaries s))"
  using mark_loop_Inr [OF assms, of s "Implantation_Probability cfg" "[1..<length s]" 0 "[]" g]
  by (auto simp: draws_in_marking_def eligible_boundaries_def)

lemma draw_slots_prefix:
  assumes "interval \<noteq> 0"
  shows "draw_slots interval 0 (length (filter (eligible s) [1..<Suc n])) =
    length (filter (draw_consumed_at s interval prob g) [1..<Suc n])"
proof (induction n)
  case 0
  then show ?case by simp
next
  case (Suc n)
  let ?k = "length (filter (eligible s) [1..<Suc n])"
  let ?d = "draw_consumed_at s interval prob g"
  have d: "?d (Suc n) \<longleftrightarrow> eligible s (Suc n) \<and> (int ?k + 1) mod interval = 0"
    by (rule draw_consumed_at_iff [OF assms])
  have right: "length (filter ?d [1..<Suc (Suc n)]) =
      length (filter ?d [1..<Suc n]) + (if ?d (Suc n) then 1 else 0)"
    by simp
  show ?case
  proof (cases "eligible s (Suc n)")
    case True
    then have "length (filter (eligible s) [1..<Suc (Suc n)]) = Suc ?k"
      by simp
    then have "draw_slots interval 0 (length (filter (eligible s) [1..<Suc (Suc n)])) =
        draw_slots interval 0 ?k + (if (int ?k + 1) mod interval = 0 then 1 else 0)"
      by (simp only: draw_slots_snoc) simp
    with True d right Suc.IH show ?thesis by simp
  next
    case False
    then have "length (filter (eligible s) [1..<Suc (Suc n)]) = ?k"
      by simp
    with False d right Suc.IH show ?thesis by simp
  qed
qed

lemma draws_in_marking_count:
  assumes "Interval cfg \<noteq> 0"
  shows "draws_in_marking s cfg g =
    length (filter (draw_consumed_at s (Interval cfg) (Implantation_Probability cfg) g)
      [1..<length s])"
proof (cases "length s")
  case 0
  then show ?thesis
    using draws_in_marking_eq [OF assms, of s g] by (simp add: eligible_boundaries_def)
next
  case (Suc n)
  then show ?thesis
    using draws_in_marking_eq [OF assms, of s g]
      draw_slots_prefix [OF assms, of s n "Implantation_Probability cfg" g]
    by (simp only: eligible_boundaries_def)
qed

lemma float_order: "float_0_2 < float_0_5" "float_0_5 < float_0_8" "0 \<le> float_0_2"
  by (simp_all add: float_0_2_def float_0_5_def float_0_8_def)

text \<open>
  The positions the marking loop marks are as many as the draws it makes that
  fall below the probability.
\<close>

lemma mark_step_cases:
  assumes "interval \<noteq> 0"
  shows "mark_step s interval prob i (c, ps, g) =
    (if eligible s i \<and> (c + 1) mod interval = 0
     then Inr (c + 1, (if draw_below g prob (used g) then ps @ [i] else ps),
               g\<lparr>used := Suc (used g)\<rparr>)
     else Inr (c + (if eligible s i then 1 else 0), ps, g))"
  using assms by (simp add: eligible_def random_random_def draw_below_def Let_def)

lemma mark_loop_marked:
  assumes "interval \<noteq> 0"
  shows "mark_loop s interval prob js (c, ps, g) = Inr (c', ps', g') \<Longrightarrow>
    used g \<le> used g' \<and>
    length ps' = length ps + length (filter (draw_below g prob) [used g..<used g'])"
proof (induction js arbitrary: c ps g)
  case Nil
  then show ?case by simp
next
  case (Cons j js)
  show ?case
  proof (cases "eligible s j \<and> (c + 1) mod interval = 0")
    case True
    let ?ps1 = "if draw_below g prob (used g) then ps @ [j] else ps"
    let ?g1 = "g\<lparr>used := Suc (used g)\<rparr>"
    from Cons.prems True have rest:
      "mark_loop s interval prob js (c + 1, ?ps1, ?g1) = Inr (c', ps', g')"
      by (simp add: mark_step_cases [OF assms] del: mark_step.simps)
    from Cons.IH [OF rest] have le: "Suc (used g) \<le> used g'"
      and len: "length ps' = length ?ps1 +
        length (filter (draw_below ?g1 prob) [Suc (used g)..<used g'])"
      by simp_all
    have same: "draw_below ?g1 prob = draw_below g prob"
      by (simp add: draw_below_def fun_eq_iff)
    have "[used g..<used g'] = used g # [Suc (used g)..<used g']"
      using le by (simp add: upt_conv_Cons)
    with le len same show ?thesis by simp
  next
    case False
    with Cons.prems have rest:
      "mark_loop s interval prob js (c + (if eligible s j then 1 else 0), ps, g) =
         Inr (c', ps', g')"
      by (simp add: mark_step_cases [OF assms] del: mark_step.simps)
    from Cons.IH [OF rest] show ?thesis .
  qed
qed

lemma insertions_are_draws_below:
  assumes iv: "Interval cfg \<noteq> 0"
    and run: "mark_loop s (Interval cfg) (Implantation_Probability cfg) [1..<length s]
                (0, [], g) = Inr (c, ps, g')"
  shows "used g' = used g + draws_in_marking s cfg g \<and>
    length ps = length (filter (draw_below g (Implantation_Probability cfg))
                  [used g..<used g + draws_in_marking s cfg g])"
proof -
  from mark_loop_marked [OF iv run] have le: "used g \<le> used g'"
    and len: "length ps =
      length (filter (draw_below g (Implantation_Probability cfg)) [used g..<used g'])"
    by simp_all
  have "draws_in_marking s cfg g = used g' - used g"
    using run by (simp add: draws_in_marking_def)
  with le have "used g' = used g + draws_in_marking s cfg g" by simp
  with len show ?thesis by simp
qed

subsection \<open>The position predicate\<close>

text \<open>
  C2. The claim reads the set of disqualifying characters as ASCII punctuation, the
  whitespace characters space, tab, newline and carriage return, and the ideographic
  space U+3000, so that two letters always make a valid position and a whitespace
  character on either side never does. The literal of the source holds the letters
  \<open>t\<close>, \<open>n\<close>, \<open>r\<close> and the code points U+00E3 and U+20AC instead of tab, newline,
  carriage return and U+3000: the pair of letters \<open>t\<close>, \<open>a\<close> is refused, and a tab or
  an ideographic space next to the letter \<open>a\<close> is accepted.
\<close>

theorem is_valid_insert_pos_letters_and_whitespace:
  "is_valid_insert_pos 0x74 0x61 = False
   \<and> is_valid_insert_pos 0x09 0x61 = True
   \<and> is_valid_insert_pos 0x0A 0x61 = True
   \<and> is_valid_insert_pos 0x0D 0x61 = True
   \<and> is_valid_insert_pos 0x3000 0x61 = True"
  by (simp add: is_valid_insert_pos_def INVALID_POS_CHARS_def)

subsection \<open>The level registry\<close>

text \<open>
  C8. Looking a level name up succeeds for each of the registered names and fails with
  KeyError for every other name; with a name that is not registered \<^verbatim>\<open>process_input\<close>
  fails with that error on every input that is not blank, and never continues with
  some default configuration.
\<close>

theorem lookup_level_registered_or_KeyError:
  "(name \<in> fst ` set INTERFERENCE_LEVELS \<longrightarrow>
      (\<exists>cfg. lookup_level name = Inr cfg \<and> (name, cfg) \<in> set INTERFERENCE_LEVELS))
   \<and> (name \<notin> fst ` set INTERFERENCE_LEVELS \<longrightarrow>
      lookup_level name = Inl (KeyError name)
      \<and> (\<forall>input_text g. str_strip input_text \<noteq> [] \<longrightarrow>
            process_input input_text name g = Inl (KeyError name)))"
proof (cases "map_of INTERFERENCE_LEVELS name")
  case None
  then have "name \<notin> fst ` set INTERFERENCE_LEVELS"
    by (simp add: map_of_eq_None_iff)
  with None show ?thesis
    by (simp add: lookup_level_def process_input_def)
next
  case (Some cfg)
  then have "(name, cfg) \<in> set INTERFERENCE_LEVELS"
    by (rule map_of_SomeD)
  moreover from this have "name \<in> fst ` set INTERFERENCE_LEVELS"
    by force
  ultimately show ?thesis
    using Some by (simp add: lookup_level_def)
qed

theorem lookup_level_registered_or_KeyError_witness:
  "lookup_level ''Severe interference'' = Inr SEVERE
   \<and> lookup_level ''Extreme'' = Inl (KeyError ''Extreme'')
   \<and> process_input [0x48, 0x69] ''Extreme'' \<lparr>outcomes = (\<lambda>n. 0), used = 0\<rparr>
       = Inl (KeyError ''Extreme'')"
  using lookup_level_registered_or_KeyError [of "''Severe interference''"]
    lookup_level_registered_or_KeyError [of "''Extreme''"]
  by (simp add: INTERFERENCE_LEVELS_def lookup_level_def str_strip_def py_isspace_def)

subsection \<open>The blank input\<close>

text \<open>
  C4. For a registered level, a text that is empty after stripping gives the empty
  string and leaves the generator untouched; on every text the call returns, and
  its result ends in the marker (a space and two characters of the level's pools)
  exactly when the text is not blank.
\<close>

theorem blank_input_returns_empty:
  assumes "lookup_level name = Inr cfg"
  shows "(str_strip input_text = [] \<longrightarrow>
           insert_adaptive_invisible_traps input_text cfg g = Inr ([], g))
    \<and> (\<exists>out g'. insert_adaptive_invisible_traps input_text cfg g = Inr (out, g')
          \<and> (has_trailing_marker (level_chars cfg) out \<longleftrightarrow> str_strip input_text \<noteq> []))"
proof (cases "str_strip input_text = []")
  case True
  then have "insert_adaptive_invisible_traps input_text cfg g = Inr ([], g)"
    by (simp add: insert_adaptive_invisible_traps_def)
  with True show ?thesis by (simp add: has_trailing_marker_def)
next
  case False
  from registered_level_ok [OF assms] obtain cs where
    iv: "Interval cfg \<noteq> 0" and cs: "extend_all_chars [] (Character_Pool cfg) = Inr cs"
    and ne: "cs \<noteq> []" and lc: "level_chars cfg = cs"
    by auto
  from traps_run [OF iv cs ne False, of g] obtain body m1 m2 g' where
    run: "insert_adaptive_invisible_traps input_text cfg g = Inr (body @ [0x20, m1, m2], g')"
    and m: "m1 \<in> set cs" "m2 \<in> set cs"
    by blast
  have "has_trailing_marker (level_chars cfg) (body @ [0x20, m1, m2])"
    using m lc by (simp only: has_trailing_marker_append)
  with run False show ?thesis by simp
qed

theorem blank_input_returns_empty_witness:
  "insert_adaptive_invisible_traps [0x20, 0x20, 0x20] MILD \<lparr>outcomes = (\<lambda>n. 0), used = 0\<rparr>
     = Inr ([], \<lparr>outcomes = (\<lambda>n. 0), used = 0\<rparr>)
   \<and> (\<exists>out g'. insert_adaptive_invisible_traps [0x48, 0x69] MILD
          \<lparr>outcomes = (\<lambda>n. 0), used = 0\<rparr> = Inr (out, g')
        \<and> has_trailing_marker (level_chars MILD) out)"
  using blank_input_returns_empty [of "''Mild Interference''" MILD "[0x20, 0x20, 0x20]"
      "\<lparr>outcomes = (\<lambda>n. 0), used = 0\<rparr>"]
    blank_input_returns_empty [of "''Mild Interference''" MILD "[0x48, 0x69]"
      "\<lparr>outcomes = (\<lambda>n. 0), used = 0\<rparr>"]
  by (simp add: lookup_level_def INTERFERENCE_LEVELS_def nb_Hi str_strip_def py_isspace_def)

subsection \<open>Length of the result\<close>

text \<open>
  C5. For a registered level and a text that is not blank, the call returns a string
  whose length is at least the length of the text plus 3 and at most the length of
  the text plus the number of eligible boundaries plus 3, whatever the generator.
\<close>

theorem traps_length_bounds:
  assumes "lookup_level name = Inr cfg" and "str_strip input_text \<noteq> []"
  shows "\<exists>out g'. insert_adaptive_invisible_traps input_text cfg g = Inr (out, g')
    \<and> length input_text + 3 \<le> length out
    \<and> length out \<le> length input_text + length (eligible_boundaries input_text) + 3"
proof -
  from registered_level_ok [OF assms(1)] obtain cs where
    iv: "Interval cfg \<noteq> 0" and cs: "extend_all_chars [] (Character_Pool cfg) = Inr cs"
    and ne: "cs \<noteq> []"
    by auto
  from traps_run [OF iv cs ne assms(2), of g] obtain ps body m1 m2 g' where
    run: "insert_adaptive_invisible_traps input_text cfg g = Inr (body @ [0x20, m1, m2], g')"
    and ps: "subseq ps (eligible_boundaries input_text)"
    and len: "length body = length input_text + length ps"
    by blast
  from ps have "length ps \<le> length (eligible_boundaries input_text)"
    by (rule list_emb_length)
  with run len show ?thesis by simp
qed

theorem traps_length_bounds_witness:
  "\<exists>out g'. insert_adaptive_invisible_traps [0x48, 0x69] MILD \<lparr>outcomes = (\<lambda>n. 0), used = 0\<rparr>
       = Inr (out, g')
    \<and> 5 \<le> length out \<and> length out \<le> 6"
  using traps_length_bounds [of "''Mild Interference''" MILD "[0x48, 0x69]"
      "\<lparr>outcomes = (\<lambda>n. 0), used = 0\<rparr>"]
  by (simp add: lookup_level_def INTERFERENCE_LEVELS_def nb_Hi eligible_Hi)

subsection \<open>The text survives in the result\<close>

text \<open>
  C10. For a registered level and a text that is not blank, the result is a body
  followed by a space and two characters of the level's pools; the text is a
  subsequence of the body and of the result; the result begins with the first
  character of the text and the body ends with its last one (no insertion before
  index 1 or after index len - 1); and the body holds exactly the characters of the
  text and, on top of them, at most one character of the level's pools per eligible
  boundary.
\<close>

theorem traps_subsequence:
  assumes "lookup_level name = Inr cfg" and "str_strip input_text \<noteq> []"
  shows "\<exists>out body ins m1 m2 g'.
    insert_adaptive_invisible_traps input_text cfg g = Inr (out, g')
    \<and> out = body @ [0x20, m1, m2]
    \<and> subseq input_text out \<and> subseq input_text body
    \<and> hd out = hd input_text \<and> last body = last input_text
    \<and> mset body = mset input_text + mset ins
    \<and> set ins \<subseteq> set (level_chars cfg)
    \<and> length ins \<le> length (eligible_boundaries input_text)
    \<and> m1 \<in> set (level_chars cfg) \<and> m2 \<in> set (level_chars cfg)"
proof -
  from registered_level_ok [OF assms(1)] obtain cs where
    iv: "Interval cfg \<noteq> 0" and cs: "extend_all_chars [] (Character_Pool cfg) = Inr cs"
    and ne: "cs \<noteq> []" and lc: "level_chars cfg = cs"
    by auto
  from traps_run [OF iv cs ne assms(2), of g] obtain ps body ins m1 m2 g' where
    run: "insert_adaptive_invisible_traps input_text cfg g = Inr (body @ [0x20, m1, m2], g')"
    and ps: "subseq ps (eligible_boundaries input_text)"
    and sub: "subseq input_text body"
    and hl: "hd body = hd input_text" "last body = last input_text"
    and ms: "mset body = mset input_text + mset ins" "set ins \<subseteq> set cs" "length ins = length ps"
    and m: "m1 \<in> set cs" "m2 \<in> set cs"
    by blast
  have "input_text \<noteq> []" using assms(2) by (rule str_strip_nonempty)
  with sub have "body \<noteq> []" by auto
  then have hd: "hd (body @ [0x20, m1, m2]) = hd input_text"
    using hl by simp
  have sub': "subseq input_text (body @ [0x20, m1, m2])"
    using sub by (rule list_emb_prefix)
  have "length ins \<le> length (eligible_boundaries input_text)"
    using ps ms(3) by (simp add: list_emb_length)
  with run sub sub' hd hl ms m lc show ?thesis by blast
qed

theorem traps_subsequence_witness:
  "\<exists>out body ins m1 m2 g'.
    insert_adaptive_invisible_traps [0x48, 0x69] SEVERE \<lparr>outcomes = (\<lambda>n. 0), used = 0\<rparr>
      = Inr (out, g')
    \<and> out = body @ [0x20, m1, m2]
    \<and> subseq [0x48, 0x69] out \<and> subseq [0x48, 0x69] body
    \<and> hd out = 0x48 \<and> last body = 0x69
    \<and> mset body = mset [0x48, 0x69] + mset ins
    \<and> set ins \<subseteq> set (level_chars SEVERE)
    \<and> length ins \<le> 1
    \<and> m1 \<in> set (level_chars SEVERE) \<and> m2 \<in> set (level_chars SEVERE)"
  using traps_subsequence [of "''Severe interference''" SEVERE "[0x48, 0x69]"
      "\<lparr>outcomes = (\<lambda>n. 0), used = 0\<rparr>"]
  by (simp add: lookup_level_def INTERFERENCE_LEVELS_def nb_Hi eligible_Hi)

text \<open>
  C1, as amended. For a registered level and a text that is not blank and holds no
  character of a registered pool, removing the characters of the registered pools
  from the result leaves the text followed by one space (what is left of the
  marker), so that dropping this last character gives the text back; equally,
  dropping the last three characters of the result and then removing the pool
  characters gives the text back.
\<close>

theorem content_preservation:
  assumes "lookup_level name = Inr cfg" and "str_strip input_text \<noteq> []"
    and "set input_text \<inter> set all_pool_chars = {}"
  shows "\<exists>out g'. insert_adaptive_invisible_traps input_text cfg g = Inr (out, g')
    \<and> strip_invisible out = input_text @ [0x20]
    \<and> butlast (strip_invisible out) = input_text
    \<and> strip_invisible (take (length out - 3) out) = input_text"
proof -
  from registered_level_ok [OF assms(1)] obtain cs where
    iv: "Interval cfg \<noteq> 0" and cs: "extend_all_chars [] (Character_Pool cfg) = Inr cs"
    and ne: "cs \<noteq> []" and pool: "set cs \<subseteq> set all_pool_chars"
    by auto
  from traps_run_filter [OF iv cs ne assms(2), of g "\<lambda>c. c \<notin> set all_pool_chars"]
  obtain body m1 m2 g' where
    run: "insert_adaptive_invisible_traps input_text cfg g = Inr (body @ [0x20, m1, m2], g')"
    and filt: "(\<forall>c\<in>set cs. \<not> c \<notin> set all_pool_chars) \<longrightarrow>
      filter (\<lambda>c. c \<notin> set all_pool_chars) body =
      filter (\<lambda>c. c \<notin> set all_pool_chars) input_text"
    and m: "m1 \<in> set cs" "m2 \<in> set cs"
    by blast
  have "strip_invisible body = strip_invisible input_text"
    unfolding strip_invisible_def using filt pool by blast
  moreover have "strip_invisible input_text = input_text"
    unfolding strip_invisible_def using assms(3) by (auto simp: filter_id_conv)
  ultimately have body: "strip_invisible body = input_text" by simp
  have mark: "strip_invisible [0x20, m1, m2] = [0x20]"
    using m pool space_not_pool by (auto simp: strip_invisible_def)
  have all: "strip_invisible (body @ [0x20, m1, m2]) = input_text @ [0x20]"
    using body mark by (simp add: strip_invisible_def)
  have "take (length (body @ [0x20, m1, m2]) - 3) (body @ [0x20, m1, m2]) = body"
    by simp
  with run body all show ?thesis by (simp del: take_append)
qed

theorem content_preservation_witness:
  "\<exists>out g'. insert_adaptive_invisible_traps [0x48, 0x69] MODERATE
       \<lparr>outcomes = (\<lambda>n. 0), used = 0\<rparr> = Inr (out, g')
    \<and> strip_invisible out = [0x48, 0x69, 0x20]
    \<and> butlast (strip_invisible out) = [0x48, 0x69]
    \<and> strip_invisible (take (length out - 3) out) = [0x48, 0x69]"
  using content_preservation [of "''Moderate Interference''" MODERATE "[0x48, 0x69]"
      "\<lparr>outcomes = (\<lambda>n. 0), used = 0\<rparr>"]
  by (simp add: lookup_level_def INTERFERENCE_LEVELS_def nb_Hi all_pool_chars_def
      INVISIBLE_CHAR_POOLS_def)

text \<open>
  C1, as stated, fails on a blank text and on a text that holds a pool character.
  The text of three spaces gives the empty string, from which it cannot be
  recovered. The text \<open>a\<close>, tab, \<open>b\<close> (the tab is in the Expansion Pool) gives, under the
  mild level with all raw outcomes 0, itself followed by a space and U+200B twice;
  removing the pool characters leaves \<open>a\<close>, \<open>b\<close>, space, in which the tab is lost.
  And once the pool characters are removed, only the space of the marker is left:
  for the text \<open>Hi\<close>, removing three more characters leaves nothing.
\<close>

theorem content_preservation_counterexample:
  "insert_adaptive_invisible_traps [0x20, 0x20, 0x20] MILD \<lparr>outcomes = (\<lambda>n. 0), used = 0\<rparr> =
     Inr ([], \<lparr>outcomes = (\<lambda>n. 0), used = 0\<rparr>)
   \<and> insert_adaptive_invisible_traps [0x61, 0x09, 0x62] MILD \<lparr>outcomes = (\<lambda>n. 0), used = 0\<rparr> =
     Inr ([0x61, 0x09, 0x62, 0x20, 0x200B, 0x200B], \<lparr>outcomes = (\<lambda>n. 0), used = 2\<rparr>)
   \<and> strip_invisible [0x61, 0x09, 0x62, 0x20, 0x200B, 0x200B] = [0x61, 0x62, 0x20]
   \<and> insert_adaptive_invisible_traps [0x48, 0x69] MILD \<lparr>outcomes = (\<lambda>n. 0), used = 0\<rparr> =
     Inr ([0x48, 0x69, 0x20, 0x200B, 0x200B], \<lparr>outcomes = (\<lambda>n. 0), used = 2\<rparr>)
   \<and> strip_invisible [0x48, 0x69, 0x20, 0x200B, 0x200B] = [0x48, 0x69, 0x20]
   \<and> take (length [0x48, 0x69, 0x20 :: nat] - 3) [0x48, 0x69, 0x20 :: nat] = []"
proof -
  have blank: "str_strip [0x20, 0x20, 0x20] = []"
    by (simp add: str_strip_def py_isspace_def)
  have nb: "str_strip [0x61, 0x09, 0x62] \<noteq> []"
    by (simp add: str_strip_def py_isspace_def)
  have v: "is_valid_insert_pos 0x61 0x09" "is_valid_insert_pos 0x09 0x62"
    by (simp_all add: is_valid_insert_pos_def INVALID_POS_CHARS_def)
  have loop: "mark_loop [0x61, 0x09, 0x62] (Interval MILD) (Implantation_Probability MILD)
      [1..<length [0x61, 0x09, 0x62 :: nat]]
      (0, [], \<lparr>outcomes = (\<lambda>n. 0), used = 0\<rparr>) = Inr (2, [], \<lparr>outcomes = (\<lambda>n. 0), used = 0\<rparr>)"
    using v by (simp add: upt_rec MILD_def)
  have em: "draw_end_mark (Character_Pool MILD) \<lparr>outcomes = (\<lambda>n. 0), used = 0\<rparr> =
      Inr ([0x200B, 0x200B], \<lparr>outcomes = (\<lambda>n. 0), used = 2\<rparr>)"
    by (simp add: draw_end_mark_def get_random_invisible_char_def level_chars_MILD
        random_choice_def)
  have il: "insert_loop (Character_Pool MILD) (rev []) [0x61, 0x09, 0x62] \<lparr>outcomes = (\<lambda>n. 0), used = 0\<rparr> =
      Inr ([0x61, 0x09, 0x62], \<lparr>outcomes = (\<lambda>n. 0), used = 0\<rparr>)"
    by simp
  from traps_eval [OF nb loop il em]
  have run: "insert_adaptive_invisible_traps [0x61, 0x09, 0x62] MILD \<lparr>outcomes = (\<lambda>n. 0), used = 0\<rparr> =
     Inr ([0x61, 0x09, 0x62, 0x20, 0x200B, 0x200B], \<lparr>outcomes = (\<lambda>n. 0), used = 2\<rparr>)"
    by simp
  have strip: "strip_invisible [0x61, 0x09, 0x62, 0x20, 0x200B, 0x200B] = [0x61, 0x62, 0x20]"
    by (simp add: strip_invisible_def all_pool_chars_def INVISIBLE_CHAR_POOLS_def)
  have mild: "lookup_level ''Mild Interference'' = Inr MILD"
    by (simp add: lookup_level_def INTERFERENCE_LEVELS_def)
  have nb_hi: "str_strip [0x48, 0x69] \<noteq> []"
    by (simp add: nb_Hi)
  have il_hi: "insert_loop (Character_Pool MILD) (rev []) [0x48, 0x69] \<lparr>outcomes = (\<lambda>n. 0), used = 0\<rparr> =
      Inr ([0x48, 0x69], \<lparr>outcomes = (\<lambda>n. 0), used = 0\<rparr>)"
    by simp
  from traps_eval [OF nb_hi mark_loop_Hi [OF mild] il_hi em]
  have run_hi: "insert_adaptive_invisible_traps [0x48, 0x69] MILD \<lparr>outcomes = (\<lambda>n. 0), used = 0\<rparr> =
     Inr ([0x48, 0x69, 0x20, 0x200B, 0x200B], \<lparr>outcomes = (\<lambda>n. 0), used = 2\<rparr>)"
    by simp
  have strip_hi: "strip_invisible [0x48, 0x69, 0x20, 0x200B, 0x200B] = [0x48, 0x69, 0x20]"
    by (simp add: strip_invisible_def all_pool_chars_def INVISIBLE_CHAR_POOLS_def)
  from blank run strip run_hi strip_hi show ?thesis
    by (simp add: insert_adaptive_invisible_traps_def)
qed

subsection \<open>Scenarios\<close>

text \<open>
  C3, as amended. On the text \<open>Hi\<close> under a registered level, the one boundary is
  valid, the counter is 1 when the remainder is taken, the remainder is not zero
  for the intervals 5, 3 and 2, so the marking loop marks nothing and leaves the
  generator as it was (no draw); the result is \<open>Hi\<close>, a space and two characters of
  the level's pools, of length exactly 5, and the only draws are the two of the
  marker.
\<close>

theorem scenario_Hi:
  assumes "lookup_level name = Inr cfg"
  shows "is_valid_insert_pos 0x48 0x69
    \<and> mark_loop [0x48, 0x69] (Interval cfg) (Implantation_Probability cfg)
          [1..<length [0x48, 0x69 :: nat]] (0, [], g) = Inr (1, [], g)
    \<and> (\<exists>out m1 m2. insert_adaptive_invisible_traps [0x48, 0x69] cfg g =
          Inr (out, g\<lparr>used := used g + 2\<rparr>)
        \<and> out = [0x48, 0x69, 0x20, m1, m2] \<and> length out = 5
        \<and> m1 \<in> set (level_chars cfg) \<and> m2 \<in> set (level_chars cfg))"
  using valid_Hi mark_loop_Hi [OF assms, of g] traps_Hi [OF assms, of g]
  by (auto simp del: mark_loop.simps)

theorem scenario_Hi_witness:
  "is_valid_insert_pos 0x48 0x69
    \<and> mark_loop [0x48, 0x69] (Interval MODERATE) (Implantation_Probability MODERATE)
          [1..<length [0x48, 0x69 :: nat]] (0, [], \<lparr>outcomes = (\<lambda>n. 0), used = 0\<rparr>)
        = Inr (1, [], \<lparr>outcomes = (\<lambda>n. 0), used = 0\<rparr>)
    \<and> (\<exists>out m1 m2. insert_adaptive_invisible_traps [0x48, 0x69] MODERATE
            \<lparr>outcomes = (\<lambda>n. 0), used = 0\<rparr> =
          Inr (out, \<lparr>outcomes = (\<lambda>n. 0), used = 2\<rparr>)
        \<and> out = [0x48, 0x69, 0x20, m1, m2] \<and> length out = 5
        \<and> m1 \<in> set (level_chars MODERATE) \<and> m2 \<in> set (level_chars MODERATE))"
  using scenario_Hi [of "''Moderate Interference''" MODERATE "\<lparr>outcomes = (\<lambda>n. 0), used = 0\<rparr>"]
  by (simp add: lookup_level_def INTERFERENCE_LEVELS_def numeral_2_eq_2 del: mark_loop.simps)

text \<open>
  C3, as stated, says that the boundary of \<open>Hi\<close> triggers a draw and that some
  outcome gives a result of length 6. Under the severe level with all raw outcomes 0
  (so that \<^verbatim>\<open>random.random()\<close> would return 0.0, below every probability) the result
  has length 5 and two draws were made, those of the marker; and no generator gives
  a result of length 6.
\<close>

theorem scenario_Hi_counterexample:
  "insert_adaptive_invisible_traps [0x48, 0x69] SEVERE \<lparr>outcomes = (\<lambda>n. 0), used = 0\<rparr> =
     Inr ([0x48, 0x69, 0x20, 0x200B, 0x200B], \<lparr>outcomes = (\<lambda>n. 0), used = 2\<rparr>)
   \<and> \<not> (\<exists>g out g'. insert_adaptive_invisible_traps [0x48, 0x69] SEVERE g = Inr (out, g')
          \<and> length out = 6)"
proof
  have sev: "lookup_level ''Severe interference'' = Inr SEVERE"
    by (simp add: lookup_level_def INTERFERENCE_LEVELS_def)
  have em: "draw_end_mark (Character_Pool SEVERE) \<lparr>outcomes = (\<lambda>n. 0), used = 0\<rparr> =
      Inr ([0x200B, 0x200B], \<lparr>outcomes = (\<lambda>n. 0), used = 2\<rparr>)"
    by (simp add: draw_end_mark_def get_random_invisible_char_def level_chars_SEVERE
        random_choice_def)
  have nb: "str_strip [0x48, 0x69] \<noteq> []" by (simp add: nb_Hi)
  have il: "insert_loop (Character_Pool SEVERE) (rev []) [0x48, 0x69]
      \<lparr>outcomes = (\<lambda>n. 0), used = 0\<rparr> = Inr ([0x48, 0x69], \<lparr>outcomes = (\<lambda>n. 0), used = 0\<rparr>)"
    by simp
  from traps_eval [OF nb mark_loop_Hi [OF sev] il em]
  show "insert_adaptive_invisible_traps [0x48, 0x69] SEVERE \<lparr>outcomes = (\<lambda>n. 0), used = 0\<rparr> =
     Inr ([0x48, 0x69, 0x20, 0x200B, 0x200B], \<lparr>outcomes = (\<lambda>n. 0), used = 2\<rparr>)"
    by simp
  show "\<not> (\<exists>g out g'. insert_adaptive_invisible_traps [0x48, 0x69] SEVERE g = Inr (out, g')
          \<and> length out = 6)"
  proof
    assume "\<exists>g out g'. insert_adaptive_invisible_traps [0x48, 0x69] SEVERE g = Inr (out, g')
          \<and> length out = 6"
    then obtain g out g' where
      run: "insert_adaptive_invisible_traps [0x48, 0x69] SEVERE g = Inr (out, g')"
      and len: "length out = 6"
      by blast
    from traps_Hi [OF sev, of g] run have "length out = 5" by auto
    with len show False by simp
  qed
qed

text \<open>
  C7. On the text \<open>a,b\<close> under the mild level, both boundaries are invalid, there is
  no eligible boundary, and for every generator the result is \<open>a,b\<close>, a space and two
  characters of the Basic Pool, of length 6; the two draws of the marker are the only
  ones.
\<close>

theorem scenario_a_comma_b:
  "is_valid_insert_pos 0x61 0x2C = False \<and> is_valid_insert_pos 0x2C 0x62 = False
   \<and> eligible_boundaries [0x61, 0x2C, 0x62] = []
   \<and> (\<exists>out m1 m2. insert_adaptive_invisible_traps [0x61, 0x2C, 0x62] MILD g =
         Inr (out, g\<lparr>used := used g + 2\<rparr>)
       \<and> out = [0x61, 0x2C, 0x62, 0x20, m1, m2] \<and> length out = 6
       \<and> m1 \<in> set [0x200B, 0x200C, 0x200D] \<and> m2 \<in> set [0x200B, 0x200C, 0x200D])"
proof -
  have inv: "is_valid_insert_pos 0x61 0x2C = False \<and> is_valid_insert_pos 0x2C 0x62 = False"
    by (simp add: is_valid_insert_pos_def INVALID_POS_CHARS_def)
  have loop: "mark_loop [0x61, 0x2C, 0x62] (Interval MILD) (Implantation_Probability MILD)
      [1..<length [0x61, 0x2C, 0x62 :: nat]] (0, [], g) = Inr (0, [], g)"
    using inv by (simp add: upt_rec)
  from draw_end_mark_Inr [OF level_chars_MILD, of g] obtain m1 m2 where
    m: "m1 \<in> set [0x200B, 0x200C, 0x200D]" "m2 \<in> set [0x200B, 0x200C, 0x200D]"
    and em: "draw_end_mark (Character_Pool MILD) g = Inr ([m1, m2], g\<lparr>used := used g + 2\<rparr>)"
    by blast
  have nb: "str_strip [0x61, 0x2C, 0x62] \<noteq> []" by (simp add: nb_acb)
  have il: "insert_loop (Character_Pool MILD) (rev []) [0x61, 0x2C, 0x62] g =
      Inr ([0x61, 0x2C, 0x62], g)"
    by simp
  from traps_eval [OF nb loop il em]
  have "insert_adaptive_invisible_traps [0x61, 0x2C, 0x62] MILD g =
      Inr ([0x61, 0x2C, 0x62, 0x20, m1, m2], g\<lparr>used := used g + 2\<rparr>)"
    by simp
  with inv eligible_acb m show ?thesis by simp
qed

subsection \<open>The draws of the marking loop\<close>

text \<open>
  C6. With an interval that is not zero, the marking loop run on the whole text passes
  through the state it has at index \<open>i\<close> and the iteration at \<open>i\<close>; that iteration makes
  a draw exactly when the boundary is valid and the counter, as it stands when the
  remainder is taken (after the increment for this boundary), is a multiple of the
  interval; the counter and the fact of drawing at \<open>i\<close> are the same for any two
  generators and probabilities, and so is the set of boundaries at which a draw is
  made.
\<close>

theorem draw_gating:
  assumes "interval \<noteq> 0" and "0 < i" and "i < length s"
  shows "mark_loop s interval prob [1..<length s] (0, [], g) =
       (case state_at s interval prob g i of
          Inl e \<Rightarrow> Inl e
        | Inr st \<Rightarrow>
            (case mark_step s interval prob i st of
               Inl e \<Rightarrow> Inl e
             | Inr st' \<Rightarrow> mark_loop s interval prob [Suc i..<length s] st'))
    \<and> (draw_consumed_at s interval prob g i \<longleftrightarrow>
          is_valid_insert_pos (s ! (i - 1)) (s ! i)
          \<and> counter_at s interval prob g i mod interval = 0)
    \<and> counter_at s interval prob g i = counter_at s interval prob' g' i
    \<and> draw_consumed_at s interval prob g i = draw_consumed_at s interval prob' g' i
    \<and> {j. 0 < j \<and> j < length s \<and> draw_consumed_at s interval prob g j} =
        {j. 0 < j \<and> j < length s \<and> draw_consumed_at s interval prob' g' j}"
proof -
  let ?c = "int (length (filter (eligible s) [1..<i]))"
  have run: "mark_loop s interval prob [1..<length s] (0, [], g) =
       (case state_at s interval prob g i of
          Inl e \<Rightarrow> Inl e
        | Inr st \<Rightarrow>
            (case mark_step s interval prob i st of
               Inl e \<Rightarrow> Inl e
             | Inr st' \<Rightarrow> mark_loop s interval prob [Suc i..<length s] st'))"
    using assms(2,3) by (rule mark_loop_reaches)
  have c: "\<And>p h. counter_at s interval p h i = ?c + (if eligible s i then 1 else 0)"
    using assms(2) by (simp add: counter_at_eq [OF assms(1)])
  have d: "\<And>p h j. draw_consumed_at s interval p h j \<longleftrightarrow>
      eligible s j \<and> (int (length (filter (eligible s) [1..<j])) + 1) mod interval = 0"
    by (rule draw_consumed_at_iff [OF assms(1)])
  have gate: "draw_consumed_at s interval prob g i \<longleftrightarrow>
      is_valid_insert_pos (s ! (i - 1)) (s ! i) \<and> counter_at s interval prob g i mod interval = 0"
    unfolding c d eligible_def by auto
  have same_c: "counter_at s interval prob g i = counter_at s interval prob' g' i"
    unfolding c ..
  have same_d: "\<And>j. draw_consumed_at s interval prob g j = draw_consumed_at s interval prob' g' j"
    unfolding d ..
  have same_set: "{j. 0 < j \<and> j < length s \<and> draw_consumed_at s interval prob g j} =
        {j. 0 < j \<and> j < length s \<and> draw_consumed_at s interval prob' g' j}"
    unfolding d ..
  from run gate same_c same_d [of i] same_set show ?thesis
    by (intro conjI)
qed

theorem draw_gating_witness:
  "mark_loop [0x48, 0x69, 0x48] 2 float_0_8 [1..<length ([0x48, 0x69, 0x48] :: ustring)] (0, [], \<lparr>outcomes = (\<lambda>n. 0), used = 0\<rparr>) =
       (case state_at [0x48, 0x69, 0x48] 2 float_0_8 \<lparr>outcomes = (\<lambda>n. 0), used = 0\<rparr> 2 of
          Inl e \<Rightarrow> Inl e
        | Inr st \<Rightarrow>
            (case mark_step [0x48, 0x69, 0x48] 2 float_0_8 2 st of
               Inl e \<Rightarrow> Inl e
             | Inr st' \<Rightarrow> mark_loop [0x48, 0x69, 0x48] 2 float_0_8 [Suc 2..<length ([0x48, 0x69, 0x48] :: ustring)] st'))
    \<and> (draw_consumed_at [0x48, 0x69, 0x48] 2 float_0_8 \<lparr>outcomes = (\<lambda>n. 0), used = 0\<rparr> 2 \<longleftrightarrow>
          is_valid_insert_pos ([0x48, 0x69, 0x48] ! (2 - 1)) ([0x48, 0x69, 0x48] ! 2)
          \<and> counter_at [0x48, 0x69, 0x48] 2 float_0_8 \<lparr>outcomes = (\<lambda>n. 0), used = 0\<rparr> 2 mod 2 = 0)
    \<and> counter_at [0x48, 0x69, 0x48] 2 float_0_8 \<lparr>outcomes = (\<lambda>n. 0), used = 0\<rparr> 2 =
        counter_at [0x48, 0x69, 0x48] 2 float_0_2 \<lparr>outcomes = (\<lambda>n. 2 ^ 53 - 1), used = 7\<rparr> 2
    \<and> draw_consumed_at [0x48, 0x69, 0x48] 2 float_0_8 \<lparr>outcomes = (\<lambda>n. 0), used = 0\<rparr> 2 =
        draw_consumed_at [0x48, 0x69, 0x48] 2 float_0_2 \<lparr>outcomes = (\<lambda>n. 2 ^ 53 - 1), used = 7\<rparr> 2
    \<and> {j. 0 < j \<and> j < length ([0x48, 0x69, 0x48] :: ustring) \<and> draw_consumed_at [0x48, 0x69, 0x48] 2 float_0_8 \<lparr>outcomes = (\<lambda>n. 0), used = 0\<rparr> j} =
        {j. 0 < j \<and> j < length ([0x48, 0x69, 0x48] :: ustring) \<and> draw_consumed_at [0x48, 0x69, 0x48] 2 float_0_2 \<lparr>outcomes = (\<lambda>n. 2 ^ 53 - 1), used = 7\<rparr> j}"
proof -
  have h: "(2::int) \<noteq> 0" "0 < (2::nat)" "2 < length ([0x48, 0x69, 0x48] :: ustring)"
    by simp_all
  show ?thesis by (rule draw_gating [OF h])
qed

subsection \<open>The three levels\<close>

text \<open>
  C9. The intervals decrease and the probabilities increase from mild over moderate
  to severe, and the pools grow; on every text the marking loop makes as many draws
  as the number of eligible boundaries divided by the interval (5, 3, 2), whatever
  the generator, and the expected number of insertions (draws times probability)
  does not decrease from mild over moderate to severe.
\<close>

theorem monotonic_interference:
  "Interval SEVERE < Interval MODERATE \<and> Interval MODERATE < Interval MILD
   \<and> Implantation_Probability MILD < Implantation_Probability MODERATE
   \<and> Implantation_Probability MODERATE < Implantation_Probability SEVERE
   \<and> set (Character_Pool MILD) \<subseteq> set (Character_Pool MODERATE)
   \<and> set (Character_Pool MODERATE) \<subseteq> set (Character_Pool SEVERE)
   \<and> set (level_chars MILD) \<subseteq> set (level_chars MODERATE)
   \<and> set (level_chars MODERATE) \<subseteq> set (level_chars SEVERE)
   \<and> draws_in_marking s MILD g1 = length (eligible_boundaries s) div 5
   \<and> draws_in_marking s MODERATE g2 = length (eligible_boundaries s) div 3
   \<and> draws_in_marking s SEVERE g3 = length (eligible_boundaries s) div 2
   \<and> expected_insertions s MILD g1 \<le> expected_insertions s MODERATE g2
   \<and> expected_insertions s MODERATE g2 \<le> expected_insertions s SEVERE g3"
proof -
  let ?n = "length (eligible_boundaries s)"
  have iv: "Interval SEVERE < Interval MODERATE \<and> Interval MODERATE < Interval MILD"
    by (simp add: MILD_def MODERATE_def SEVERE_def)
  have pr: "Implantation_Probability MILD < Implantation_Probability MODERATE
      \<and> Implantation_Probability MODERATE < Implantation_Probability SEVERE"
    using float_order by (simp add: MILD_def MODERATE_def SEVERE_def)
  have pools: "set (Character_Pool MILD) \<subseteq> set (Character_Pool MODERATE)
      \<and> set (Character_Pool MODERATE) \<subseteq> set (Character_Pool SEVERE)"
    by (simp add: MILD_def MODERATE_def SEVERE_def)
  have chars: "set (level_chars MILD) \<subseteq> set (level_chars MODERATE)
      \<and> set (level_chars MODERATE) \<subseteq> set (level_chars SEVERE)"
    by (simp add: level_chars_def level_chars_MILD level_chars_MODERATE level_chars_SEVERE)
  have d1: "draws_in_marking s MILD g1 = ?n div 5"
    using draws_in_marking_eq [of MILD s g1] draw_slots_div [of 5 ?n]
    by (simp add: MILD_def)
  have d2: "draws_in_marking s MODERATE g2 = ?n div 3"
    using draws_in_marking_eq [of MODERATE s g2] draw_slots_div [of 3 ?n]
    by (simp add: MODERATE_def)
  have d3: "draws_in_marking s SEVERE g3 = ?n div 2"
    using draws_in_marking_eq [of SEVERE s g3] draw_slots_div [of 2 ?n]
    by (simp add: SEVERE_def)
  have le1: "?n div 5 \<le> ?n div 3" and le2: "?n div 3 \<le> ?n div 2"
    by (simp_all add: div_le_mono2)
  have e1: "expected_insertions s MILD g1 \<le> expected_insertions s MODERATE g2"
    unfolding expected_insertions_def d1 d2
    using le1 pr float_order(3)
    by (intro mult_mono) (simp_all add: MILD_def MODERATE_def)
  have e2: "expected_insertions s MODERATE g2 \<le> expected_insertions s SEVERE g3"
    unfolding expected_insertions_def d2 d3
    using le2 pr float_order
    by (intro mult_mono) (simp_all add: MODERATE_def SEVERE_def)
  from iv pr pools chars d1 d2 d3 e1 e2 show ?thesis
    by (intro conjI) simp_all
qed

end
